theory Spec2Isabelle
  imports Main "HOL-Library.Sublist"
begin

section \<open>JavaScript numbers and arrays as the queue uses them\<close>

text \<open>
  The class \<open>CircularQueue<T>\<close> keeps three numbers and one array. Every number the class
  stores is an integer (a capacity, an index or the sentinel \<open>-1\<close>), so the fields are
  modelled as \<open>int\<close>. Two operators of the source need care:

  \<^item> \<open>a % b\<close> is the truncating remainder: its sign follows the dividend, and it is
    \<open>NaN\<close> when \<open>b\<close> is zero. \<open>None\<close> stands for \<open>NaN\<close>; the negative zero that
    \<open>-1 % 1\<close> produces compares equal to \<open>0\<close> and is the integer \<open>0\<close> here.
  \<^item> \<open>x == y\<close> is false whenever one side is \<open>NaN\<close>.

  The array \<open>this.queue\<close> is only ever read and written by index; its \<open>length\<close> property
  is never consulted. A JavaScript array is modelled as a map from indices to values: reading
  an index that was never written yields \<open>undefined\<close>, which is \<open>None\<close>, and writing any
  index creates or replaces the entry.
\<close>

definition js_rem :: "int \<Rightarrow> int \<Rightarrow> int option" where
  "js_rem a b = (if b = 0 then None else Some (sgn a * (\<bar>a\<bar> mod \<bar>b\<bar>)))"

definition js_eq :: "int \<Rightarrow> int option \<Rightarrow> bool" where
  "js_eq x y = (case y of None \<Rightarrow> False | Some v \<Rightarrow> x = v)"

definition js_index :: "(int \<Rightarrow> 'a option) \<Rightarrow> int option \<Rightarrow> 'a option" where
  "js_index a i = (case i of None \<Rightarrow> None | Some k \<Rightarrow> a k)"

section \<open>The class CircularQueue\<close>

datatype error = RangeError | QueueFull | QueueEmpty

record 'a CircularQueue =
  queue :: "int \<Rightarrow> 'a option"
  frontIndex :: int
  rearIndex :: int
  size_cq :: int

text \<open>
  \<open>new Array(size)\<close> throws a \<open>RangeError\<close> when the requested length is negative or
  above \<open>2^32 - 1\<close>; otherwise it yields an array in which no index has been written.
\<close>

definition js_new_Array :: "int \<Rightarrow> error + (int \<Rightarrow> 'a option)" where
  "js_new_Array n = (if n < 0 \<or> 4294967295 < n then Inl RangeError else Inr (\<lambda>_. None))"

text \<open>
  The constructor allocates the array, sets both indices to the sentinel \<open>-1\<close> and keeps
  the capacity. It checks nothing itself: it fails only where the allocation does.
\<close>

definition constructor :: "int \<Rightarrow> error + 'a CircularQueue" where
  "constructor n =
     (case js_new_Array n of
        Inl e \<Rightarrow> Inl e
      | Inr a \<Rightarrow> Inr \<lparr>queue = a, frontIndex = - 1, rearIndex = - 1, size_cq = n\<rparr>)"

text \<open>
  Every method takes the object and returns its result together with the object afterwards.
  A \<open>throw\<close> is the result \<open>Inl\<close>; the object returned with it is the one the exception
  leaves behind.
\<close>

definition enqueue :: "'a \<Rightarrow> 'a CircularQueue \<Rightarrow> (error + unit) \<times> 'a CircularQueue" where
  "enqueue item q =
     (if (frontIndex q = 0 \<and> rearIndex q = size_cq q - 1) \<or>
         js_eq (rearIndex q) (js_rem (frontIndex q - 1) (size_cq q - 1))
      then (Inl QueueFull, q)
      else if frontIndex q = - 1
      then (Inr (), q\<lparr>queue := (queue q)(0 \<mapsto> item), frontIndex := 0, rearIndex := 0\<rparr>)
      else if rearIndex q = size_cq q - 1 \<and> frontIndex q \<noteq> 0
      then (Inr (), q\<lparr>queue := (queue q)(0 \<mapsto> item), rearIndex := 0\<rparr>)
      else (Inr (), q\<lparr>queue := (queue q)(rearIndex q + 1 \<mapsto> item),
                       rearIndex := rearIndex q + 1\<rparr>))"

definition dequeue :: "'a CircularQueue \<Rightarrow> (error + 'a option) \<times> 'a CircularQueue" where
  "dequeue q =
     (if frontIndex q = - 1 then (Inl QueueEmpty, q)
      else let item = queue q (frontIndex q) in
        if frontIndex q = rearIndex q
        then (Inr item, q\<lparr>frontIndex := - 1, rearIndex := - 1\<rparr>)
        else if frontIndex q = size_cq q - 1
        then (Inr item, q\<lparr>frontIndex := 0\<rparr>)
        else (Inr item, q\<lparr>frontIndex := frontIndex q + 1\<rparr>))"

text \<open>\<open>peek\<close> returns \<open>null\<close> or the slot at the front, which may be \<open>undefined\<close>.\<close>

datatype 'a peeked = Null | Slot "'a option"

definition peek :: "'a CircularQueue \<Rightarrow> 'a peeked \<times> 'a CircularQueue" where
  "peek q = (if frontIndex q = - 1 then (Null, q) else (Slot (queue q (frontIndex q)), q))"

definition isEmpty :: "'a CircularQueue \<Rightarrow> bool" where
  "isEmpty q = (frontIndex q = - 1)"

definition length_cq :: "'a CircularQueue \<Rightarrow> int" where
  "length_cq q =
     (if frontIndex q = - 1 then 0
      else if rearIndex q \<ge> frontIndex q then rearIndex q - frontIndex q + 1
      else size_cq q - (frontIndex q - rearIndex q - 1))"

section \<open>The two iterators\<close>

text \<open>
  Each iterator is a closure over \<open>index\<close>, \<open>count\<close>, \<open>storage\<close> and \<open>totalItems\<close>, and it
  reads \<open>this.size\<close> on every step. \<open>index\<close> can become \<open>NaN\<close> (when \<open>this.size\<close> is
  zero), so it is an \<open>int option\<close>. \<open>storage\<close> is the array as it is while the queue is
  not mutated, which is the only situation considered here.
\<close>

record 'a QueueIterator =
  index :: "int option"
  count :: int
  storage :: "int \<Rightarrow> 'a option"
  totalItems :: int
  this_size :: int

datatype 'a IteratorResult = Done | Yield "'a option"

definition iterator :: "'a CircularQueue \<Rightarrow> 'a QueueIterator" where
  "iterator q = \<lparr>index = Some (frontIndex q), count = 0, storage = queue q,
                 totalItems = length_cq q, this_size = size_cq q\<rparr>"

definition iterator_next :: "'a QueueIterator \<Rightarrow> 'a IteratorResult \<times> 'a QueueIterator" where
  "iterator_next it =
     (if count it \<ge> totalItems it \<or> index it = Some (- 1) then (Done, it)
      else let v = js_index (storage it) (index it) in
        (Yield v,
         it\<lparr>index := (case index it of None \<Rightarrow> None | Some i \<Rightarrow> js_rem (i + 1) (this_size it)),
            count := count it + 1\<rparr>))"

definition reverseIterator :: "'a CircularQueue \<Rightarrow> 'a QueueIterator" where
  "reverseIterator q = \<lparr>index = Some (rearIndex q), count = 0, storage = queue q,
                        totalItems = length_cq q, this_size = size_cq q\<rparr>"

definition reverseIterator_next ::
  "'a QueueIterator \<Rightarrow> 'a IteratorResult \<times> 'a QueueIterator" where
  "reverseIterator_next it =
     (if count it \<ge> totalItems it \<or> index it = Some (- 1) then (Done, it)
      else let v = js_index (storage it) (index it) in
        (Yield v,
         it\<lparr>index := (case index it of None \<Rightarrow> None
                        | Some i \<Rightarrow> js_rem (i - 1 + this_size it) (this_size it)),
            count := count it + 1\<rparr>))"

text \<open>
  Consuming an iterator to exhaustion, as \<open>for (const item of circularQueue)\<close> and the
  \<open>while (!result.done)\<close> loop of the examples do: call \<open>next\<close> until it reports \<open>done\<close>
  and collect the values. Both loops end because \<open>count\<close> grows towards \<open>totalItems\<close>.
\<close>

function forward_items :: "'a QueueIterator \<Rightarrow> 'a option list" where
  "forward_items it =
     (if fst (iterator_next it) = Done then []
      else (case fst (iterator_next it) of Yield v \<Rightarrow> v | Done \<Rightarrow> None)
           # forward_items (snd (iterator_next it)))"
  by pat_completeness auto
termination
  by (relation "measure (\<lambda>it. nat (totalItems it - count it))")
     (auto simp: iterator_next_def Let_def split: if_splits)

function reverse_items :: "'a QueueIterator \<Rightarrow> 'a option list" where
  "reverse_items it =
     (if fst (reverseIterator_next it) = Done then []
      else (case fst (reverseIterator_next it) of Yield v \<Rightarrow> v | Done \<Rightarrow> None)
           # reverse_items (snd (reverseIterator_next it)))"
  by pat_completeness auto
termination
  by (relation "measure (\<lambda>it. nat (totalItems it - count it))")
     (auto simp: reverseIterator_next_def Let_def split: if_splits)

declare forward_items.simps [simp del] reverse_items.simps [simp del]

section \<open>Clients: sequences of operations\<close>

text \<open>
  A client issues \<open>enqueue\<close> and \<open>dequeue\<close> calls one after the other and catches what they
  throw. \<open>run\<close> records the outcome of every call and returns the queue after the last one.
\<close>

datatype 'a operation = Enqueue 'a | Dequeue

datatype 'a outcome = Enqueued | Dequeued "'a option" | Failed error

fun apply_op :: "'a CircularQueue \<Rightarrow> 'a operation \<Rightarrow> 'a outcome \<times> 'a CircularQueue" where
  "apply_op q (Enqueue x) =
     (case fst (enqueue x q) of Inl e \<Rightarrow> (Failed e, snd (enqueue x q))
      | Inr _ \<Rightarrow> (Enqueued, snd (enqueue x q)))"
| "apply_op q Dequeue =
     (case fst (dequeue q) of Inl e \<Rightarrow> (Failed e, snd (dequeue q))
      | Inr v \<Rightarrow> (Dequeued v, snd (dequeue q)))"

fun run :: "'a CircularQueue \<Rightarrow> 'a operation list \<Rightarrow> 'a outcome list \<times> 'a CircularQueue" where
  "run q [] = ([], q)"
| "run q (x # xs) =
     (fst (apply_op q x) # fst (run (snd (apply_op q x)) xs), snd (run (snd (apply_op q x)) xs))"

fun dequeued_values :: "'a outcome list \<Rightarrow> 'a option list" where
  "dequeued_values [] = []"
| "dequeued_values (Dequeued v # os) = v # dequeued_values os"
| "dequeued_values (_ # os) = dequeued_values os"

fun enqueued_count :: "'a outcome list \<Rightarrow> int" where
  "enqueued_count [] = 0"
| "enqueued_count (Enqueued # os) = 1 + enqueued_count os"
| "enqueued_count (_ # os) = enqueued_count os"

fun dequeued_count :: "'a outcome list \<Rightarrow> int" where
  "dequeued_count [] = 0"
| "dequeued_count (Dequeued v # os) = 1 + dequeued_count os"
| "dequeued_count (_ # os) = dequeued_count os"

text \<open>The values whose \<open>enqueue\<close> call succeeded, in call order.\<close>

fun accepted_values :: "'a operation list \<Rightarrow> 'a outcome list \<Rightarrow> 'a list" where
  "accepted_values (Enqueue x # ops) (Enqueued # os) = x # accepted_values ops os"
| "accepted_values (_ # ops) (_ # os) = accepted_values ops os"
| "accepted_values _ _ = []"

text \<open>The values a client asked to enqueue, in call order.\<close>

fun requested_values :: "'a operation list \<Rightarrow> 'a list" where
  "requested_values [] = []"
| "requested_values (Enqueue x # ops) = x # requested_values ops"
| "requested_values (Dequeue # ops) = requested_values ops"

section \<open>The state invariant and the logical contents\<close>

text \<open>
  A well-formed queue has a positive capacity, and its indices are either both the sentinel
  or both slots of the array.
\<close>

definition queue_inv :: "'a CircularQueue \<Rightarrow> bool" where
  "queue_inv q \<longleftrightarrow>
     0 < size_cq q \<and>
     ((frontIndex q = - 1 \<and> rearIndex q = - 1) \<or>
      (0 \<le> frontIndex q \<and> frontIndex q < size_cq q \<and>
       0 \<le> rearIndex q \<and> rearIndex q < size_cq q))"

text \<open>The live elements, oldest first: \<open>length()\<close> slots from \<open>frontIndex\<close>, circularly.\<close>

definition live_elems :: "'a CircularQueue \<Rightarrow> 'a option list" where
  "live_elems q =
     map (\<lambda>k. queue q ((frontIndex q + int k) mod size_cq q)) [0..<nat (length_cq q)]"

text \<open>
  The hypothesis of the FIFO law: no \<open>enqueue\<close> is issued while the queue holds as many
  elements as its capacity, and no \<open>dequeue\<close> while it is empty.
\<close>

fun within_capacity :: "'a CircularQueue \<Rightarrow> 'a operation list \<Rightarrow> bool" where
  "within_capacity q [] = True"
| "within_capacity q (Enqueue x # ops) =
     (length_cq q \<noteq> size_cq q \<and> within_capacity (snd (apply_op q (Enqueue x))) ops)"
| "within_capacity q (Dequeue # ops) =
     (\<not> isEmpty q \<and> within_capacity (snd (apply_op q Dequeue)) ops)"

text \<open>
  The condition under which \<open>enqueue\<close> throws, exactly as the first branch of the method
  writes it.
\<close>

definition full_check :: "'a CircularQueue \<Rightarrow> bool" where
  "full_check q \<longleftrightarrow> (frontIndex q = 0 \<and> rearIndex q = size_cq q - 1) \<or>
         js_eq (rearIndex q) (js_rem (frontIndex q - 1) (size_cq q - 1))"

text \<open>
  The constructor also accepts capacity 0. Such a queue is either empty or holds one element
  in slot 0, which the array takes although it was allocated with length 0.
\<close>

definition zero_capacity_inv :: "'a CircularQueue \<Rightarrow> bool" where
  "zero_capacity_inv q \<longleftrightarrow>
     size_cq q = 0 \<and>
     ((frontIndex q = - 1 \<and> rearIndex q = - 1) \<or> (frontIndex q = 0 \<and> rearIndex q = 0))"

section \<open>Example queues\<close>

text \<open>
  A freshly constructed queue of numbers, and the queue of capacity 3 after
  \<open>enqueue(10), enqueue(20), enqueue(30), dequeue(), enqueue(40)\<close>: its rear index has
  wrapped to slot 0 while its front index is 1.
\<close>

definition empty_example :: "int \<Rightarrow> nat CircularQueue" where
  "empty_example n = \<lparr>queue = (\<lambda>_. None), frontIndex = - 1, rearIndex = - 1, size_cq = n\<rparr>"

definition wrapped_example :: "nat CircularQueue" where
  "wrapped_example =
     \<lparr>queue = (\<lambda>_. None)(0 \<mapsto> 40, 1 \<mapsto> 20, 2 \<mapsto> 30), frontIndex = 1, rearIndex = 0, size_cq = 3\<rparr>"

text \<open>The queue of capacity 0 after \<open>enqueue(5)\<close>.\<close>

definition zero_example :: "nat CircularQueue" where
  "zero_example = \<lparr>queue = (\<lambda>_. None)(0 \<mapsto> 5), frontIndex = 0, rearIndex = 0, size_cq = 0\<rparr>"

section \<open>Arithmetic of the indices\<close>

lemma js_rem_nonneg: "0 \<le> a \<Longrightarrow> 0 < b \<Longrightarrow> js_rem a b = Some (a mod b)"
  by (auto simp: js_rem_def sgn_if)

lemma constructor_inv:
  "constructor C = Inr q \<Longrightarrow> 0 < C \<Longrightarrow> queue_inv q \<and> size_cq q = C \<and> frontIndex q = - 1"
  by (auto simp: constructor_def js_new_Array_def queue_inv_def split: if_splits)

lemma enqueue_size: "size_cq (snd (enqueue x q)) = size_cq q"
  by (simp add: enqueue_def)

lemma dequeue_size: "size_cq (snd (dequeue q)) = size_cq q"
  by (simp add: dequeue_def Let_def)

lemma enqueue_inv: "queue_inv q \<Longrightarrow> queue_inv (snd (enqueue x q))"
  by (auto simp: enqueue_def queue_inv_def)

lemma dequeue_inv: "queue_inv q \<Longrightarrow> queue_inv (snd (dequeue q))"
  by (auto simp: dequeue_def queue_inv_def Let_def)

lemma enqueue_failed: "fst (enqueue x q) = Inl e \<Longrightarrow> e = QueueFull \<and> snd (enqueue x q) = q"
  by (auto simp: enqueue_def split: if_splits)

lemma dequeue_failed: "fst (dequeue q) = Inl e \<Longrightarrow> e = QueueEmpty \<and> snd (dequeue q) = q"
  by (auto simp: dequeue_def Let_def split: if_splits)

lemma enqueue_length:
  "queue_inv q \<Longrightarrow> fst (enqueue x q) = Inr u \<Longrightarrow> length_cq (snd (enqueue x q)) = length_cq q + 1"
  by (auto simp: enqueue_def queue_inv_def length_cq_def js_eq_def js_rem_def sgn_if
           split: if_splits)

lemma dequeue_length:
  "queue_inv q \<Longrightarrow> fst (dequeue q) = Inr v \<Longrightarrow> length_cq (snd (dequeue q)) = length_cq q - 1"
  by (auto simp: dequeue_def queue_inv_def length_cq_def Let_def split: if_splits)

lemma length_bounds: "queue_inv q \<Longrightarrow> 0 \<le> length_cq q \<and> length_cq q \<le> size_cq q"
  by (auto simp: queue_inv_def length_cq_def)

lemma length_zero_iff: "queue_inv q \<Longrightarrow> length_cq q = 0 \<longleftrightarrow> frontIndex q = - 1"
  by (auto simp: queue_inv_def length_cq_def)

lemma slots_distinct:
  fixes f n :: int
  assumes "k < l" "l < k + n"
  shows "(f + k) mod n \<noteq> (f + l) mod n"
proof
  assume "(f + k) mod n = (f + l) mod n"
  then have "n dvd (f + l) - (f + k)" by (metis mod_eq_dvd_iff)
  then have "n dvd l - k" by simp
  then have "n \<le> l - k" using assms by (intro zdvd_imp_le) auto
  with assms show False by simp
qed

lemma rem_front_pos:
  assumes "1 \<le> f" "f < n"
  shows "js_rem (f - 1) (n - 1) = Some (f - 1)"
proof -
  have "0 \<le> f - 1" "0 < n - 1" "f - 1 < n - 1" using assms by auto
  then show ?thesis by (simp add: js_rem_nonneg)
qed

lemma rem_front_zero:
  assumes "0 < n"
  shows "js_eq r (js_rem (- 1) (n - 1)) \<longleftrightarrow> (n = 2 \<and> r = 0) \<or> (3 \<le> n \<and> r = - 1)"
proof -
  consider "n = 1" | "n = 2" | "3 \<le> n" using assms by linarith
  then show ?thesis
  proof cases
    case 1 then show ?thesis by (simp add: js_rem_def js_eq_def)
  next
    case 2 then show ?thesis by (simp add: js_rem_def js_eq_def)
  next
    case 3
    then have "(1::int) mod (n - 1) = 1" by simp
    with 3 show ?thesis by (simp add: js_rem_def js_eq_def)
  qed
qed

lemma rem_front_sentinel:
  assumes "0 < n"
  shows "\<not> js_eq (- 1) (js_rem (- 2) (n - 1))"
proof -
  consider "n = 1" | "n = 2" | "n = 3" | "4 \<le> n" using assms by linarith
  then show ?thesis
  proof cases
    case 4
    then have "(2::int) mod (n - 1) = 2" by simp
    with 4 show ?thesis by (simp add: js_rem_def js_eq_def)
  qed (simp_all add: js_rem_def js_eq_def)
qed

lemma full_check_iff:
  assumes "queue_inv q"
  shows "full_check q \<longleftrightarrow>
           length_cq q = size_cq q \<or> (size_cq q = 2 \<and> frontIndex q = 0 \<and> rearIndex q = 0)"
proof -
  consider (empty) "frontIndex q = - 1" "rearIndex q = - 1"
    | (zero) "frontIndex q = 0" "0 \<le> rearIndex q" "rearIndex q < size_cq q"
    | (pos) "1 \<le> frontIndex q" "frontIndex q < size_cq q" "0 \<le> rearIndex q" "rearIndex q < size_cq q"
    using assms unfolding queue_inv_def by force
  then show ?thesis
  proof cases
    case empty
    have "0 < size_cq q" using assms by (simp add: queue_inv_def)
    then show ?thesis using empty rem_front_sentinel [of "size_cq q"]
      by (simp add: full_check_def length_cq_def)
  next
    case zero
    have "0 < size_cq q" using assms by (simp add: queue_inv_def)
    then show ?thesis using zero rem_front_zero [of "size_cq q" "rearIndex q"]
      by (auto simp: full_check_def length_cq_def)
  next
    case pos
    then show ?thesis using rem_front_pos [of "frontIndex q" "size_cq q"]
      by (auto simp: full_check_def length_cq_def js_eq_def)
  qed
qed

lemma count_formula:
  assumes "queue_inv q" "frontIndex q \<noteq> - 1"
  shows "js_rem (rearIndex q - frontIndex q + size_cq q) (size_cq q) = Some (length_cq q - 1)"
proof -
  have r: "0 < size_cq q" "0 \<le> frontIndex q" "frontIndex q < size_cq q"
    "0 \<le> rearIndex q" "rearIndex q < size_cq q"
    using assms unfolding queue_inv_def by auto
  then have "js_rem (rearIndex q - frontIndex q + size_cq q) (size_cq q) =
             Some ((rearIndex q - frontIndex q + size_cq q) mod size_cq q)"
    by (intro js_rem_nonneg) auto
  moreover have "(rearIndex q - frontIndex q + size_cq q) mod size_cq q = length_cq q - 1"
  proof (cases "frontIndex q \<le> rearIndex q")
    case True
    then have "(rearIndex q - frontIndex q + size_cq q) mod size_cq q = rearIndex q - frontIndex q"
      using r by simp
    then show ?thesis using True assms(2) by (simp add: length_cq_def)
  next
    case False
    then have "(rearIndex q - frontIndex q + size_cq q) mod size_cq q =
               rearIndex q - frontIndex q + size_cq q"
      using r by (intro mod_pos_pos_trivial) auto
    then show ?thesis using False assms(2) by (simp add: length_cq_def)
  qed
  ultimately show ?thesis by simp
qed

section \<open>Effect of enqueue and dequeue on the live elements\<close>

lemma enqueue_throws: "full_check q \<Longrightarrow> enqueue x q = (Inl QueueFull, q)"
  by (simp add: enqueue_def full_check_def)

lemma enqueue_succeeds:
  "\<not> full_check q \<Longrightarrow> fst (enqueue x q) = Inr ()"
  by (simp add: enqueue_def full_check_def)

lemma enqueue_ok_iff: "fst (enqueue x q) = Inr u \<longleftrightarrow> \<not> full_check q"
  by (simp add: enqueue_def full_check_def)

lemma enqueue_effect:
  assumes "queue_inv q" "\<not> full_check q"
  shows "queue (snd (enqueue x q)) =
           (queue q)((frontIndex (snd (enqueue x q)) + length_cq q) mod size_cq q \<mapsto> x)"
    and "frontIndex q \<noteq> - 1 \<Longrightarrow> frontIndex (snd (enqueue x q)) = frontIndex q"
    and "length_cq q < size_cq q"
proof -
  have n: "0 < size_cq q" using assms by (simp add: queue_inv_def)
  have nf: "length_cq q \<noteq> size_cq q" using assms full_check_iff by blast
  show "length_cq q < size_cq q" using nf length_bounds [OF assms(1)] by simp
  show "frontIndex q \<noteq> - 1 \<Longrightarrow> frontIndex (snd (enqueue x q)) = frontIndex q"
    using assms(2) by (simp add: enqueue_def full_check_def)
  consider (empty) "frontIndex q = - 1" "rearIndex q = - 1"
    | (wrap) "frontIndex q \<noteq> - 1" "rearIndex q = size_cq q - 1" "frontIndex q \<noteq> 0"
    | (plain) "frontIndex q \<noteq> - 1" "\<not> (rearIndex q = size_cq q - 1 \<and> frontIndex q \<noteq> 0)"
    using assms(1) unfolding queue_inv_def by force
  then show "queue (snd (enqueue x q)) =
           (queue q)((frontIndex (snd (enqueue x q)) + length_cq q) mod size_cq q \<mapsto> x)"
  proof cases
    case empty
    then show ?thesis using assms(2) n
      by (simp add: enqueue_def full_check_def length_cq_def)
  next
    case wrap
    then have "0 < frontIndex q" "frontIndex q < size_cq q"
      using assms(1) unfolding queue_inv_def by auto
    then have "length_cq q = size_cq q - frontIndex q"
      using wrap by (simp add: length_cq_def)
    then have "(frontIndex q + length_cq q) mod size_cq q = 0" by simp
    then show ?thesis using wrap assms(2)
      by (simp add: enqueue_def full_check_def)
  next
    case plain
    then have r: "0 \<le> frontIndex q" "frontIndex q < size_cq q" "0 \<le> rearIndex q" "rearIndex q < size_cq q"
      using assms(1) unfolding queue_inv_def by auto
    have r1: "rearIndex q + 1 < size_cq q"
      using plain r assms(2) by (auto simp: full_check_def)
    have "(frontIndex q + length_cq q) mod size_cq q = rearIndex q + 1"
    proof (cases "frontIndex q \<le> rearIndex q")
      case True
      then have "frontIndex q + length_cq q = rearIndex q + 1"
        using plain by (simp add: length_cq_def)
      then show ?thesis using r r1 by simp
    next
      case False
      then have "frontIndex q + length_cq q = (rearIndex q + 1) + size_cq q"
        using plain by (simp add: length_cq_def)
      then show ?thesis using r r1 by simp
    qed
    moreover have "snd (enqueue x q) =
        q\<lparr>queue := (queue q)(rearIndex q + 1 \<mapsto> x), rearIndex := rearIndex q + 1\<rparr>"
      using plain assms(2) by (auto simp: enqueue_def full_check_def)
    ultimately show ?thesis by simp
  qed
qed

lemma enqueue_length2:
  assumes "queue_inv q" "\<not> full_check q"
  shows "length_cq (snd (enqueue x q)) = length_cq q + 1"
  using assms enqueue_length [of q x "()"] by (simp add: enqueue_succeeds)

lemma enqueue_live:
  assumes "queue_inv q" "\<not> full_check q"
  shows "live_elems (snd (enqueue x q)) = live_elems q @ [Some x]"
proof -
  let ?q' = "snd (enqueue x q)"
  let ?n = "size_cq q"
  let ?m = "nat (length_cq q)"
  have len: "0 \<le> length_cq q" "length_cq q < ?n"
    using length_bounds [OF assms(1)] enqueue_effect(3) [OF assms] by auto
  have m: "nat (length_cq ?q') = Suc ?m"
    using enqueue_length2 [OF assms] len by simp
  have w: "queue ?q' = (queue q)((frontIndex ?q' + int ?m) mod ?n \<mapsto> x)"
    using enqueue_effect(1) [OF assms] len by simp
  have old: "queue ?q' ((frontIndex ?q' + int k) mod ?n) = queue q ((frontIndex q + int k) mod ?n)"
    if "k < ?m" for k
  proof -
    from that have ne: "frontIndex q \<noteq> - 1"
      using length_zero_iff [OF assms(1)] by auto
    then have f: "frontIndex ?q' = frontIndex q" using enqueue_effect(2) [OF assms] by simp
    have "(frontIndex q + int k) mod ?n \<noteq> (frontIndex q + int ?m) mod ?n"
      using that len by (intro slots_distinct) auto
    then show ?thesis using w f by simp
  qed
  have "live_elems ?q' =
          map (\<lambda>k. queue ?q' ((frontIndex ?q' + int k) mod ?n)) [0..<?m] @
          [queue ?q' ((frontIndex ?q' + int ?m) mod ?n)]"
    by (simp add: live_elems_def m enqueue_size)
  also have "queue ?q' ((frontIndex ?q' + int ?m) mod ?n) = Some x" using w by simp
  also have "map (\<lambda>k. queue ?q' ((frontIndex ?q' + int k) mod ?n)) [0..<?m] = live_elems q"
    unfolding live_elems_def using old by (intro map_cong) auto
  finally show ?thesis .
qed

lemma dequeue_effect:
  assumes "queue_inv q" "frontIndex q \<noteq> - 1"
  shows "fst (dequeue q) = Inr (queue q (frontIndex q))"
    and "queue (snd (dequeue q)) = queue q"
    and "length_cq q = 1 \<or> frontIndex (snd (dequeue q)) = (frontIndex q + 1) mod size_cq q"
proof -
  show "fst (dequeue q) = Inr (queue q (frontIndex q))"
    using assms(2) by (simp add: dequeue_def Let_def)
  show "queue (snd (dequeue q)) = queue q"
    by (simp add: dequeue_def Let_def)
  have r: "0 \<le> frontIndex q" "frontIndex q < size_cq q"
    using assms unfolding queue_inv_def by auto
  show "length_cq q = 1 \<or> frontIndex (snd (dequeue q)) = (frontIndex q + 1) mod size_cq q"
  proof (cases "frontIndex q = rearIndex q")
    case True
    then show ?thesis using assms(2) by (simp add: length_cq_def)
  next
    case False
    show ?thesis
    proof (cases "frontIndex q = size_cq q - 1")
      case True
      then have "(frontIndex q + 1) mod size_cq q = 0" by simp
      then show ?thesis using True False assms(2) by (simp add: dequeue_def Let_def)
    next
      case False
      then have "(frontIndex q + 1) mod size_cq q = frontIndex q + 1" using r by simp
      then show ?thesis using False \<open>frontIndex q \<noteq> rearIndex q\<close> assms(2)
        by (simp add: dequeue_def Let_def)
    qed
  qed
qed

lemma dequeue_live:
  assumes "queue_inv q" "frontIndex q \<noteq> - 1"
  shows "live_elems q = queue q (frontIndex q) # live_elems (snd (dequeue q))"
proof -
  let ?q' = "snd (dequeue q)"
  let ?n = "size_cq q"
  have ok: "fst (dequeue q) = Inr (queue q (frontIndex q))"
    using dequeue_effect(1) [OF assms] .
  have r: "0 \<le> frontIndex q" "frontIndex q < ?n"
    using assms unfolding queue_inv_def by auto
  have len: "length_cq ?q' = length_cq q - 1"
    using dequeue_length [OF assms(1) ok] .
  have pos: "1 \<le> length_cq q"
    using length_bounds [OF assms(1)] length_zero_iff [OF assms(1)] assms(2) by linarith
  obtain m where m: "nat (length_cq q) = Suc m" "nat (length_cq ?q') = m"
    using len pos by (metis Suc_nat_eq_nat_zadd1 add.commute diff_add_cancel diff_ge_0_iff_ge)
  have shift: "queue q ((frontIndex q + int (Suc k)) mod ?n) =
               queue ?q' ((frontIndex ?q' + int k) mod ?n)" if "k < m" for k
  proof -
    from that m have "length_cq q \<noteq> 1" by auto
    then have "frontIndex ?q' = (frontIndex q + 1) mod ?n"
      using dequeue_effect(3) [OF assms] by simp
    then have "(frontIndex ?q' + int k) mod ?n = (frontIndex q + 1 + int k) mod ?n"
      by (simp add: mod_add_left_eq)
    moreover have "frontIndex q + int (Suc k) = frontIndex q + 1 + int k" by simp
    ultimately show ?thesis using dequeue_effect(2) [OF assms] by metis
  qed
  have "live_elems q = map (\<lambda>k. queue q ((frontIndex q + int k) mod ?n)) [0..<Suc m]"
    by (simp add: live_elems_def m)
  also have "\<dots> = queue q (frontIndex q mod ?n) #
                  map (\<lambda>k. queue q ((frontIndex q + int (Suc k)) mod ?n)) [0..<m]"
    by (simp add: upt_conv_Cons map_Suc_upt [symmetric] del: upt_Suc)
  also have "frontIndex q mod ?n = frontIndex q" using r by simp
  also have "map (\<lambda>k. queue q ((frontIndex q + int (Suc k)) mod ?n)) [0..<m] = live_elems ?q'"
    unfolding live_elems_def m dequeue_size using shift by (intro map_cong) auto
  finally show ?thesis .
qed

section \<open>What the iterators yield\<close>

lemma forward_items_done:
  "totalItems it \<le> count it \<or> index it = Some (- 1) \<Longrightarrow> forward_items it = []"
  by (subst forward_items.simps) (auto simp: iterator_next_def)

lemma reverse_items_done:
  "totalItems it \<le> count it \<or> index it = Some (- 1) \<Longrightarrow> reverse_items it = []"
  by (subst reverse_items.simps) (auto simp: reverseIterator_next_def)

lemma forward_items_step:
  assumes "count it < totalItems it" "index it = Some i" "0 \<le> i" "0 < this_size it"
  shows "forward_items it =
           storage it i # forward_items (it\<lparr>index := Some ((i + 1) mod this_size it),
                                            count := count it + 1\<rparr>)"
proof -
  have "js_rem (i + 1) (this_size it) = Some ((i + 1) mod this_size it)"
    using assms by (simp add: js_rem_nonneg)
  then have "iterator_next it =
      (Yield (storage it i), it\<lparr>index := Some ((i + 1) mod this_size it), count := count it + 1\<rparr>)"
    using assms by (simp add: iterator_next_def js_index_def Let_def)
  then show ?thesis by (subst forward_items.simps) simp
qed

lemma reverse_items_step:
  assumes "count it < totalItems it" "index it = Some i" "0 \<le> i" "0 < this_size it"
  shows "reverse_items it =
           storage it i # reverse_items (it\<lparr>index := Some ((i - 1) mod this_size it),
                                            count := count it + 1\<rparr>)"
proof -
  have "js_rem (i - 1 + this_size it) (this_size it) = Some ((i - 1 + this_size it) mod this_size it)"
    using assms by (simp add: js_rem_nonneg)
  then have "js_rem (i - 1 + this_size it) (this_size it) = Some ((i - 1) mod this_size it)"
    by simp
  then have "reverseIterator_next it =
      (Yield (storage it i), it\<lparr>index := Some ((i - 1) mod this_size it), count := count it + 1\<rparr>)"
    using assms by (simp add: reverseIterator_next_def js_index_def Let_def)
  then show ?thesis by (subst reverse_items.simps) simp
qed

lemma forward_items_window:
  assumes "0 < this_size it" "index it = Some i" "0 \<le> i" "i < this_size it"
    and "nat (totalItems it - count it) = m"
  shows "forward_items it = map (\<lambda>k. storage it ((i + int k) mod this_size it)) [0..<m]"
  using assms
proof (induction m arbitrary: it i)
  case 0
  then show ?case by (simp add: forward_items_done)
next
  case (Suc m)
  let ?n = "this_size it"
  let ?it' = "it\<lparr>index := Some ((i + 1) mod ?n), count := count it + 1\<rparr>"
  have lt: "count it < totalItems it" using Suc.prems by linarith
  have "forward_items ?it' = map (\<lambda>k. storage ?it' (((i + 1) mod ?n + int k) mod this_size ?it')) [0..<m]"
    using Suc.prems by (intro Suc.IH) auto
  then have "forward_items ?it' = map (\<lambda>k. storage it ((i + int (Suc k)) mod ?n)) [0..<m]"
    by (simp add: mod_add_left_eq add.assoc)
  moreover have "forward_items it = storage it i # forward_items ?it'"
    using forward_items_step [OF lt Suc.prems(2) Suc.prems(3) Suc.prems(1)] .
  moreover have "i mod ?n = i" using Suc.prems by simp
  ultimately show ?case
    by (simp add: upt_conv_Cons map_Suc_upt [symmetric] del: upt_Suc)
qed

lemma reverse_items_window:
  assumes "0 < this_size it" "index it = Some i" "0 \<le> i" "i < this_size it"
    and "nat (totalItems it - count it) = m"
  shows "reverse_items it = map (\<lambda>k. storage it ((i - int k) mod this_size it)) [0..<m]"
  using assms
proof (induction m arbitrary: it i)
  case 0
  then show ?case by (simp add: reverse_items_done)
next
  case (Suc m)
  let ?n = "this_size it"
  let ?it' = "it\<lparr>index := Some ((i - 1) mod ?n), count := count it + 1\<rparr>"
  have lt: "count it < totalItems it" using Suc.prems by linarith
  have "reverse_items ?it' = map (\<lambda>k. storage ?it' (((i - 1) mod ?n - int k) mod this_size ?it')) [0..<m]"
    using Suc.prems by (intro Suc.IH) auto
  moreover have "((i - 1) mod ?n - int k) mod ?n = (i - int (Suc k)) mod ?n" for k
  proof -
    have "((i - 1) mod ?n - int k) mod ?n = (i - 1 - int k) mod ?n"
      by (simp add: mod_diff_left_eq)
    then show ?thesis by (simp add: algebra_simps)
  qed
  ultimately have "reverse_items ?it' = map (\<lambda>k. storage it ((i - int (Suc k)) mod ?n)) [0..<m]"
    by simp
  moreover have "reverse_items it = storage it i # reverse_items ?it'"
    using reverse_items_step [OF lt Suc.prems(2) Suc.prems(3) Suc.prems(1)] .
  moreover have "i mod ?n = i" using Suc.prems by simp
  ultimately show ?case
    by (simp add: upt_conv_Cons map_Suc_upt [symmetric] del: upt_Suc)
qed

lemma rev_map_upt: "rev (map f [0..<m]) = map (\<lambda>k. f (m - 1 - k)) [0..<m]"
  by (rule nth_equalityI) (auto simp: rev_nth)

lemma rear_from_front:
  assumes "queue_inv q" "frontIndex q \<noteq> - 1"
  shows "rearIndex q - (length_cq q - 1) = frontIndex q \<or>
         rearIndex q - (length_cq q - 1) = frontIndex q - size_cq q"
  using assms by (auto simp: length_cq_def)

lemma forward_iterator_live:
  assumes "queue_inv q"
  shows "forward_items (iterator q) = live_elems q"
proof (cases "frontIndex q = - 1")
  case True
  then show ?thesis
    by (simp add: forward_items_done iterator_def live_elems_def length_cq_def)
next
  case False
  then have "0 < size_cq q" "0 \<le> frontIndex q" "frontIndex q < size_cq q"
    using assms unfolding queue_inv_def by auto
  then have "forward_items (iterator q) =
      map (\<lambda>k. storage (iterator q) ((frontIndex q + int k) mod this_size (iterator q)))
        [0..<nat (length_cq q)]"
    by (intro forward_items_window) (simp_all add: iterator_def)
  then show ?thesis by (simp add: iterator_def live_elems_def)
qed

lemma reverse_iterator_live:
  assumes "queue_inv q"
  shows "reverse_items (reverseIterator q) = rev (live_elems q)"
proof (cases "frontIndex q = - 1")
  case True
  then have "rearIndex q = - 1" using assms unfolding queue_inv_def by auto
  with True show ?thesis
    by (simp add: reverse_items_done reverseIterator_def live_elems_def length_cq_def)
next
  case False
  let ?n = "size_cq q" and ?m = "nat (length_cq q)"
  from False have r: "0 < ?n" "0 \<le> rearIndex q" "rearIndex q < ?n"
    using assms unfolding queue_inv_def by auto
  have pos: "1 \<le> length_cq q"
    using length_bounds [OF assms] length_zero_iff [OF assms] False by linarith
  have "reverse_items (reverseIterator q) =
      map (\<lambda>k. storage (reverseIterator q) ((rearIndex q - int k) mod this_size (reverseIterator q)))
        [0..<?m]"
    using r by (intro reverse_items_window) (simp_all add: reverseIterator_def)
  then have rv: "reverse_items (reverseIterator q) =
      map (\<lambda>k. queue q ((rearIndex q - int k) mod ?n)) [0..<?m]"
    by (simp add: reverseIterator_def)
  have "rev (live_elems q) =
      map (\<lambda>k. queue q ((frontIndex q + int (?m - 1 - k)) mod ?n)) [0..<?m]"
    unfolding live_elems_def by (rule rev_map_upt)
  also have "\<dots> = map (\<lambda>k. queue q ((rearIndex q - int k) mod ?n)) [0..<?m]"
  proof (intro map_cong refl)
    fix k assume "k \<in> set [0..<?m]"
    then have k: "int (?m - 1 - k) = length_cq q - 1 - int k" using pos by auto
    from rear_from_front [OF assms False]
    have "(frontIndex q + (length_cq q - 1 - int k)) mod ?n = (rearIndex q - int k) mod ?n"
    proof
      assume "rearIndex q - (length_cq q - 1) = frontIndex q"
      then have "frontIndex q + (length_cq q - 1 - int k) = rearIndex q - int k" by linarith
      then show ?thesis by (simp only:)
    next
      assume "rearIndex q - (length_cq q - 1) = frontIndex q - size_cq q"
      then have "frontIndex q + (length_cq q - 1 - int k) = (rearIndex q - int k) + ?n" by linarith
      then show ?thesis by (simp only: mod_add_self2)
    qed
    with k show "queue q ((frontIndex q + int (?m - 1 - k)) mod ?n) =
                 queue q ((rearIndex q - int k) mod ?n)" by simp
  qed
  finally show ?thesis using rv by simp
qed

lemma live_length: "queue_inv q \<Longrightarrow> int (length (live_elems q)) = length_cq q"
  using length_bounds [of q] by (simp add: live_elems_def)

section \<open>Sequences of operations\<close>

lemma apply_op_enqueue_full:
  "full_check q \<Longrightarrow> apply_op q (Enqueue x) = (Failed QueueFull, q)"
  by (simp add: enqueue_throws)

lemma apply_op_enqueue_ok:
  "\<not> full_check q \<Longrightarrow> apply_op q (Enqueue x) = (Enqueued, snd (enqueue x q))"
  by (simp add: enqueue_succeeds)

lemma apply_op_dequeue_empty:
  "frontIndex q = - 1 \<Longrightarrow> apply_op q Dequeue = (Failed QueueEmpty, q)"
  by (simp add: dequeue_def)

lemma apply_op_dequeue_ok:
  "frontIndex q \<noteq> - 1 \<Longrightarrow>
     apply_op q Dequeue = (Dequeued (queue q (frontIndex q)), snd (dequeue q))"
  by (simp add: dequeue_def Let_def)

lemma apply_op_inv: "queue_inv q \<Longrightarrow> queue_inv (snd (apply_op q x))"
  by (cases x) (auto simp: enqueue_inv dequeue_inv split: sum.splits)

lemma apply_op_size: "size_cq (snd (apply_op q x)) = size_cq q"
  by (cases x) (auto simp: enqueue_size dequeue_size split: sum.splits)

lemma run_inv: "queue_inv q \<Longrightarrow> queue_inv (snd (run q ops))"
  by (induction ops arbitrary: q) (simp_all add: apply_op_inv)

lemma run_size: "size_cq (snd (run q ops)) = size_cq q"
  by (induction ops arbitrary: q) (simp_all add: apply_op_size)

lemma apply_op_length:
  assumes "queue_inv q"
  shows "length_cq (snd (apply_op q x)) =
           length_cq q + enqueued_count [fst (apply_op q x)] - dequeued_count [fst (apply_op q x)]"
proof (cases x)
  case (Enqueue y)
  show ?thesis
  proof (cases "full_check q")
    case True
    then show ?thesis using Enqueue by (simp add: apply_op_enqueue_full del: apply_op.simps)
  next
    case False
    then show ?thesis using Enqueue enqueue_length2 [OF assms False]
      by (simp add: apply_op_enqueue_ok del: apply_op.simps)
  qed
next
  case Dequeue
  show ?thesis
  proof (cases "frontIndex q = - 1")
    case True
    then show ?thesis using Dequeue by (simp add: apply_op_dequeue_empty del: apply_op.simps)
  next
    case False
    then have "fst (dequeue q) = Inr (queue q (frontIndex q))"
      by (simp add: dequeue_def Let_def)
    from dequeue_length [OF assms this] show ?thesis
      using Dequeue False by (simp add: apply_op_dequeue_ok del: apply_op.simps)
  qed
qed

lemma enqueued_count_Cons: "enqueued_count (a # os) = enqueued_count [a] + enqueued_count os"
  by (cases a) simp_all

lemma dequeued_count_Cons: "dequeued_count (a # os) = dequeued_count [a] + dequeued_count os"
  by (cases a) simp_all

lemma run_length:
  "queue_inv q \<Longrightarrow>
   length_cq (snd (run q ops)) =
     length_cq q + enqueued_count (fst (run q ops)) - dequeued_count (fst (run q ops))"
proof (induction ops arbitrary: q)
  case Nil
  then show ?case by simp
next
  case (Cons x ops)
  let ?q' = "snd (apply_op q x)"
  have "length_cq (snd (run ?q' ops)) =
          length_cq ?q' + enqueued_count (fst (run ?q' ops)) - dequeued_count (fst (run ?q' ops))"
    using Cons.prems by (intro Cons.IH apply_op_inv)
  moreover note apply_op_length [OF Cons.prems, of x]
  moreover note enqueued_count_Cons [of "fst (apply_op q x)" "fst (run ?q' ops)"]
  moreover note dequeued_count_Cons [of "fst (apply_op q x)" "fst (run ?q' ops)"]
  ultimately show ?case by simp
qed

lemma apply_op_live:
  assumes "queue_inv q"
  shows "live_elems q @ map Some (accepted_values [x] [fst (apply_op q x)]) =
           dequeued_values [fst (apply_op q x)] @ live_elems (snd (apply_op q x))"
proof (cases x)
  case (Enqueue y)
  show ?thesis
  proof (cases "full_check q")
    case True
    then show ?thesis using Enqueue by (simp add: apply_op_enqueue_full del: apply_op.simps)
  next
    case False
    then show ?thesis using Enqueue enqueue_live [OF assms False]
      by (simp add: apply_op_enqueue_ok del: apply_op.simps)
  qed
next
  case Dequeue
  show ?thesis
  proof (cases "frontIndex q = - 1")
    case True
    then show ?thesis using Dequeue by (simp add: apply_op_dequeue_empty del: apply_op.simps)
  next
    case False
    then show ?thesis using Dequeue dequeue_live [OF assms False]
      by (simp add: apply_op_dequeue_ok del: apply_op.simps)
  qed
qed

lemma accepted_values_Cons:
  "accepted_values (x # ops) (a # os) = accepted_values [x] [a] @ accepted_values ops os"
  by (cases x; cases a) simp_all

lemma dequeued_values_Cons: "dequeued_values (a # os) = dequeued_values [a] @ dequeued_values os"
  by (cases a) simp_all

lemma run_live:
  "queue_inv q \<Longrightarrow>
   live_elems q @ map Some (accepted_values ops (fst (run q ops))) =
     dequeued_values (fst (run q ops)) @ live_elems (snd (run q ops))"
proof (induction ops arbitrary: q)
  case Nil
  then show ?case by simp
next
  case (Cons x ops)
  let ?a = "fst (apply_op q x)" and ?q' = "snd (apply_op q x)"
  let ?os = "fst (run ?q' ops)"
  have step: "live_elems q @ map Some (accepted_values [x] [?a]) =
                dequeued_values [?a] @ live_elems ?q'"
    using apply_op_live [OF Cons.prems] .
  have rest: "live_elems ?q' @ map Some (accepted_values ops ?os) =
                dequeued_values ?os @ live_elems (snd (run ?q' ops))"
    using Cons.prems by (intro Cons.IH apply_op_inv)
  have "live_elems q @ map Some (accepted_values (x # ops) (?a # ?os)) =
          (live_elems q @ map Some (accepted_values [x] [?a])) @ map Some (accepted_values ops ?os)"
    by (simp only: accepted_values_Cons [of x ops ?a ?os] map_append append_assoc)
  also have "\<dots> = dequeued_values [?a] @ (live_elems ?q' @ map Some (accepted_values ops ?os))"
    by (simp only: step append_assoc)
  also have "\<dots> = (dequeued_values [?a] @ dequeued_values ?os) @ live_elems (snd (run ?q' ops))"
    by (simp only: rest append_assoc)
  also have "\<dots> = dequeued_values (?a # ?os) @ live_elems (snd (run ?q' ops))"
    by (simp only: dequeued_values_Cons [of ?a ?os, symmetric])
  finally show ?case by simp
qed

lemma fresh_queue_live: "constructor C = Inr q \<Longrightarrow> live_elems q = [] \<and> length_cq q = 0"
  by (auto simp: constructor_def js_new_Array_def live_elems_def length_cq_def split: if_splits)

text \<open>
  First in, first out, for the values whose \<open>enqueue\<close> succeeded: they are the values
  dequeued so far followed by the live elements.
\<close>

lemma fifo_of_accepted_values:
  assumes "constructor C = Inr q0" "0 < C"
  shows "map Some (accepted_values ops (fst (run q0 ops))) =
           dequeued_values (fst (run q0 ops)) @ live_elems (snd (run q0 ops))"
  using run_live [of q0 ops] constructor_inv [OF assms] fresh_queue_live [OF assms(1)] by simp

lemma enqueue_throws_iff:
  assumes "queue_inv q" "size_cq q \<noteq> 2"
  shows "fst (enqueue x q) = Inl QueueFull \<longleftrightarrow> length_cq q = size_cq q"
  using assms full_check_iff [OF assms(1)]
  by (cases "full_check q") (simp_all add: enqueue_throws enqueue_succeeds)

lemma all_requests_accepted:
  assumes "queue_inv q" "size_cq q \<noteq> 2" "within_capacity q ops"
  shows "accepted_values ops (fst (run q ops)) = requested_values ops"
  using assms
proof (induction ops arbitrary: q)
  case Nil
  then show ?case by simp
next
  case (Cons x ops)
  let ?q' = "snd (apply_op q x)"
  have inv': "queue_inv ?q'" using Cons.prems(1) by (rule apply_op_inv)
  have sz': "size_cq ?q' \<noteq> 2" using Cons.prems(2) by (simp add: apply_op_size)
  show ?case
  proof (cases x)
    case (Enqueue y)
    then have "length_cq q \<noteq> size_cq q" and rest: "within_capacity ?q' ops"
      using Cons.prems(3) by simp_all
    then have "\<not> full_check q"
      using full_check_iff [OF Cons.prems(1)] Cons.prems(2) by simp
    then have "fst (apply_op q x) = Enqueued"
      using Enqueue by (simp add: apply_op_enqueue_ok del: apply_op.simps)
    moreover have "accepted_values ops (fst (run ?q' ops)) = requested_values ops"
      using inv' sz' rest by (rule Cons.IH)
    ultimately show ?thesis using Enqueue by (simp del: apply_op.simps)
  next
    case Dequeue
    then have "frontIndex q \<noteq> - 1" and rest: "within_capacity ?q' ops"
      using Cons.prems(3) by (simp_all add: isEmpty_def)
    then have "fst (apply_op q x) = Dequeued (queue q (frontIndex q))"
      using Dequeue by (simp add: apply_op_dequeue_ok del: apply_op.simps)
    moreover have "accepted_values ops (fst (run ?q' ops)) = requested_values ops"
      using inv' sz' rest by (rule Cons.IH)
    ultimately show ?thesis using Dequeue by (simp del: apply_op.simps)
  qed
qed

lemma fifo_unless_capacity_two:
  assumes "constructor C = Inr q0" "0 < C" "C \<noteq> 2" "within_capacity q0 ops"
  shows "prefix (dequeued_values (fst (run q0 ops))) (map Some (requested_values ops))"
proof -
  have inv: "queue_inv q0" and sz: "size_cq q0 = C"
    using constructor_inv [OF assms(1,2)] by auto
  have "accepted_values ops (fst (run q0 ops)) = requested_values ops"
    using inv sz assms(3,4) by (intro all_requests_accepted) auto
  then have "map Some (requested_values ops) =
               dequeued_values (fst (run q0 ops)) @ live_elems (snd (run q0 ops))"
    using fifo_of_accepted_values [OF assms(1,2), of ops] by simp
  then show ?thesis by (simp add: prefix_def)
qed

section \<open>Queues of capacity 0\<close>

lemma constructor_capacity: "constructor C = Inr q \<Longrightarrow> 0 \<le> C \<and> size_cq q = C"
  by (auto simp: constructor_def js_new_Array_def split: if_splits)

lemma constructor_zero_inv: "constructor 0 = Inr q \<Longrightarrow> zero_capacity_inv q"
  by (auto simp: constructor_def js_new_Array_def zero_capacity_inv_def)

lemma zero_capacity_cases:
  assumes "zero_capacity_inv q"
  obtains (empty) "size_cq q = 0" "frontIndex q = - 1" "rearIndex q = - 1"
        | (one) "size_cq q = 0" "frontIndex q = 0" "rearIndex q = 0"
  using assms unfolding zero_capacity_inv_def by blast

lemma zero_capacity_length:
  assumes "zero_capacity_inv q"
  shows "0 \<le> length_cq q" and "length_cq q \<le> 1"
    and "length_cq q = 0 \<longleftrightarrow> frontIndex q = - 1"
    and "frontIndex q = - 1 \<longleftrightarrow> rearIndex q = - 1"
  using assms by (cases rule: zero_capacity_cases; simp add: length_cq_def)+

lemma apply_op_zero_inv:
  assumes "zero_capacity_inv q"
  shows "zero_capacity_inv (snd (apply_op q x))"
  using assms
proof (cases rule: zero_capacity_cases)
  case empty
  then show ?thesis
    by (cases x) (simp_all add: zero_capacity_inv_def enqueue_def dequeue_def js_rem_def js_eq_def)
next
  case one
  then show ?thesis
    by (cases x) (simp_all add: zero_capacity_inv_def enqueue_def dequeue_def js_rem_def js_eq_def)
qed

lemma apply_op_zero_length:
  assumes "zero_capacity_inv q"
  shows "length_cq (snd (apply_op q x)) =
           length_cq q + enqueued_count [fst (apply_op q x)] - dequeued_count [fst (apply_op q x)]"
  using assms
proof (cases rule: zero_capacity_cases)
  case empty
  then show ?thesis
    by (cases x) (simp_all add: length_cq_def enqueue_def dequeue_def js_rem_def js_eq_def)
next
  case one
  then show ?thesis
    by (cases x) (simp_all add: length_cq_def enqueue_def dequeue_def js_rem_def js_eq_def)
qed

lemma run_zero_inv: "zero_capacity_inv q \<Longrightarrow> zero_capacity_inv (snd (run q ops))"
  by (induction ops arbitrary: q) (simp_all add: apply_op_zero_inv del: apply_op.simps)

lemma run_zero_length:
  "zero_capacity_inv q \<Longrightarrow>
   length_cq (snd (run q ops)) =
     length_cq q + enqueued_count (fst (run q ops)) - dequeued_count (fst (run q ops))"
proof (induction ops arbitrary: q)
  case Nil
  then show ?case by simp
next
  case (Cons x ops)
  let ?q' = "snd (apply_op q x)"
  have "length_cq (snd (run ?q' ops)) =
          length_cq ?q' + enqueued_count (fst (run ?q' ops)) - dequeued_count (fst (run ?q' ops))"
    using Cons.prems by (intro Cons.IH apply_op_zero_inv)
  moreover note apply_op_zero_length [OF Cons.prems, of x]
  moreover note enqueued_count_Cons [of "fst (apply_op q x)" "fst (run ?q' ops)"]
  moreover note dequeued_count_Cons [of "fst (apply_op q x)" "fst (run ?q' ops)"]
  ultimately show ?case by simp
qed

text \<open>The queue after any run, for every capacity the constructor accepts.\<close>

lemma run_facts:
  assumes "constructor C = Inr q0"
  shows "size_cq (snd (run q0 ops)) = C"
    and "length_cq (snd (run q0 ops)) =
           enqueued_count (fst (run q0 ops)) - dequeued_count (fst (run q0 ops))"
    and "0 \<le> length_cq (snd (run q0 ops))"
    and "length_cq (snd (run q0 ops)) \<le> max C 1"
    and "length_cq (snd (run q0 ops)) = 0 \<longleftrightarrow> frontIndex (snd (run q0 ops)) = - 1"
    and "frontIndex (snd (run q0 ops)) = - 1 \<longleftrightarrow> rearIndex (snd (run q0 ops)) = - 1"
proof -
  let ?q = "snd (run q0 ops)"
  have cap: "0 \<le> C" "size_cq q0 = C" using constructor_capacity [OF assms] by auto
  have len0: "length_cq q0 = 0" using fresh_queue_live [OF assms] by simp
  show "size_cq ?q = C" using cap by (simp add: run_size)
  have "length_cq ?q = enqueued_count (fst (run q0 ops)) - dequeued_count (fst (run q0 ops)) \<and>
        0 \<le> length_cq ?q \<and> length_cq ?q \<le> max C 1 \<and>
        (length_cq ?q = 0 \<longleftrightarrow> frontIndex ?q = - 1) \<and>
        (frontIndex ?q = - 1 \<longleftrightarrow> rearIndex ?q = - 1)"
  proof (cases "C = 0")
    case True
    then have z: "zero_capacity_inv q0" using assms constructor_zero_inv by blast
    have zq: "zero_capacity_inv ?q" using z by (rule run_zero_inv)
    show ?thesis
      using run_zero_length [OF z, of ops] len0 zero_capacity_length [OF zq] by simp
  next
    case False
    then have pos: "0 < C" using cap by simp
    have inv: "queue_inv q0" using constructor_inv [OF assms pos] by simp
    have invq: "queue_inv ?q" using inv by (rule run_inv)
    have "frontIndex ?q = - 1 \<longleftrightarrow> rearIndex ?q = - 1"
      using invq unfolding queue_inv_def by auto
    moreover have "length_cq ?q \<le> max C 1"
      using length_bounds [OF invq] \<open>size_cq ?q = C\<close> by linarith
    ultimately show ?thesis
      using run_length [OF inv, of ops] len0 length_bounds [OF invq] length_zero_iff [OF invq]
      by simp
  qed
  then show "length_cq ?q = enqueued_count (fst (run q0 ops)) - dequeued_count (fst (run q0 ops))"
    and "0 \<le> length_cq ?q" and "length_cq ?q \<le> max C 1"
    and "length_cq ?q = 0 \<longleftrightarrow> frontIndex ?q = - 1"
    and "frontIndex ?q = - 1 \<longleftrightarrow> rearIndex ?q = - 1"
    by blast+
qed

section \<open>The example queues\<close>

lemmas eval_simps = enqueue_def dequeue_def js_rem_def js_eq_def length_cq_def isEmpty_def

lemma constructor_example: "constructor 3 = Inr (empty_example 3)"
  by (simp add: constructor_def js_new_Array_def empty_example_def)

lemma wrapped_example_reached:
  "run (empty_example 3) [Enqueue 10, Enqueue 20, Enqueue 30, Dequeue, Enqueue 40] =
     ([Enqueued, Enqueued, Enqueued, Dequeued (Some 10), Enqueued], wrapped_example)"
  by (simp add: empty_example_def wrapped_example_def eval_simps fun_upd_twist)

lemma constructor_zero_example: "constructor 0 = Inr (empty_example 0)"
  by (simp add: constructor_def js_new_Array_def empty_example_def)

lemma zero_example_reached: "run (empty_example 0) [Enqueue 5] = ([Enqueued], zero_example)"
  by (simp add: empty_example_def zero_example_def eval_simps)

section \<open>The claims\<close>

text \<open>
  Claim C1 (FIFO law for every positive capacity). The law says: when no \<open>enqueue\<close> is
  issued on a queue whose element count equals its capacity and no \<open>dequeue\<close> on an empty
  one, the dequeued values are a prefix of the values handed to \<open>enqueue\<close>. At capacity 2
  the code breaks it. After one \<open>enqueue\<close> the fullness test evaluates
  \<open>(0 - 1) % (2 - 1)\<close>, which is zero and equals \<open>rearIndex\<close>, so the second
  \<open>enqueue\<close> throws although the queue holds one element of two. The value 20 is lost and
  the dequeued sequence 10, 30 is not a prefix of the requested 10, 20, 30.
  \<open>fifo_unless_capacity_two\<close> above shows the law for every other positive capacity.
\<close>

theorem fifo_fails_at_capacity_two:
  "constructor 2 = Inr (empty_example 2) \<and>
   within_capacity (empty_example 2) [Enqueue 10, Enqueue 20, Dequeue, Enqueue 30, Dequeue] \<and>
   fst (run (empty_example 2) [Enqueue 10, Enqueue 20, Dequeue, Enqueue 30, Dequeue]) =
     [Enqueued, Failed QueueFull, Dequeued (Some 10), Enqueued, Dequeued (Some 30)] \<and>
   \<not> prefix
       (dequeued_values
          (fst (run (empty_example 2) [Enqueue 10, Enqueue 20, Dequeue, Enqueue 30, Dequeue])))
       (map Some (requested_values [Enqueue 10, Enqueue 20, Dequeue, Enqueue 30, Dequeue]))"
  by (simp add: constructor_def js_new_Array_def empty_example_def eval_simps)

text \<open>
  Claim C2 (construction with a capacity \<open>\<le> 0\<close> fails). It fails as stated: the constructor
  has no check of its own, and \<open>new Array(0)\<close> succeeds, so capacity 0 yields a queue.
\<close>

theorem constructor_accepts_zero:
  "(0::int) \<le> 0 \<and> constructor 0 = Inr (empty_example 0)"
  by (simp add: constructor_def js_new_Array_def empty_example_def)

text \<open>
  Claim C2, amended: construction with a negative capacity fails, because the array allocation
  throws a \<open>RangeError\<close> before any field is set.
\<close>

theorem constructor_rejects_negative:
  "n < 0 \<Longrightarrow> constructor n = (Inl RangeError :: error + 'a CircularQueue)"
  by (simp add: constructor_def js_new_Array_def)

theorem constructor_rejects_negative_witness:
  "(- 1 :: int) < 0 \<and> constructor (- 1) = (Inl RangeError :: error + nat CircularQueue)"
  using constructor_rejects_negative [of "- 1"] by simp

text \<open>
  Claim C3 (enqueue on a queue whose element count equals its capacity throws and changes
  nothing). It fails as stated on the queue of capacity 0: freshly constructed it holds 0
  elements, as many as its capacity, yet \<open>enqueue(5)\<close> succeeds and writes slot 0, because
  \<open>-1 == (-1 - 1) % (0 - 1)\<close> is false.
\<close>

theorem enqueue_accepted_at_capacity_zero:
  "constructor 0 = Inr (empty_example 0) \<and>
   length_cq (empty_example 0) = size_cq (empty_example 0) \<and>
   enqueue 5 (empty_example 0) = (Inr (), zero_example)"
  by (simp add: constructor_zero_example)
     (simp add: empty_example_def zero_example_def eval_simps)

text \<open>
  Claim C3, amended: for every queue of positive capacity whose indices are both the sentinel
  or both slots of the array (every queue built with a positive capacity is such) and whose
  element count \<open>length()\<close> equals its capacity, \<open>enqueue\<close> throws the queue-full error and
  the queue after the call is the queue before it: both indices and every slot are untouched,
  since the test is the first thing the method does.
\<close>

theorem enqueue_on_full_queue:
  assumes "queue_inv q" "length_cq q = size_cq q"
  shows "enqueue x q = (Inl QueueFull, q)"
  using assms full_check_iff [OF assms(1)] by (simp add: enqueue_throws)

theorem enqueue_on_full_queue_witness:
  "queue_inv wrapped_example \<and> length_cq wrapped_example = size_cq wrapped_example \<and>
   enqueue 50 wrapped_example = (Inl QueueFull, wrapped_example)"
proof -
  have a: "queue_inv wrapped_example" by (simp add: queue_inv_def wrapped_example_def)
  have b: "length_cq wrapped_example = size_cq wrapped_example"
    by (simp add: length_cq_def wrapped_example_def)
  from a b enqueue_on_full_queue [OF a b, of 50] show ?thesis by simp
qed

text \<open>
  Claim C4 (dequeue on an empty queue). For every queue for which \<open>isEmpty()\<close> holds,
  \<open>dequeue\<close> throws the queue-empty error and leaves the queue exactly as it was; no slot
  value is returned.
\<close>

theorem dequeue_on_empty_queue:
  "isEmpty q \<Longrightarrow> dequeue q = (Inl QueueEmpty, q)"
  by (simp add: isEmpty_def dequeue_def)

theorem dequeue_on_empty_queue_witness:
  "isEmpty (empty_example 3) \<and> dequeue (empty_example 3) = (Inl QueueEmpty, empty_example 3)"
proof -
  have a: "isEmpty (empty_example 3)" by (simp add: isEmpty_def empty_example_def)
  from a dequeue_on_empty_queue [OF a] show ?thesis by simp
qed

text \<open>
  Claim C5 (length counts the operations and stays within \<open>0 .. C\<close>). The bound fails as
  stated on the queue of capacity 0: one successful \<open>enqueue\<close> brings \<open>length()\<close> to 1,
  above the capacity.
\<close>

theorem length_exceeds_capacity_zero:
  "constructor 0 = Inr (empty_example 0) \<and>
   run (empty_example 0) [Enqueue 5] = ([Enqueued], zero_example) \<and>
   length_cq zero_example = 1 \<and> \<not> length_cq zero_example \<le> 0"
  by (simp only: constructor_zero_example zero_example_reached simp_thms)
     (simp add: zero_example_def length_cq_def)

text \<open>
  Claim C5, amended: after any sequence of calls on a freshly constructed queue of capacity
  \<open>C\<close>, \<open>length()\<close> is the number of enqueues that succeeded minus the number of dequeues
  that succeeded; it is never negative and never exceeds \<open>C\<close> when \<open>C\<close> is positive, while
  the queue of capacity 0 holds at most one element. Calls that throw change nothing, so for a
  sequence of successful calls these are the numbers of calls. The witness is a state with
  \<open>rearIndex < frontIndex\<close>.
\<close>

theorem length_counts_operations:
  assumes "constructor C = Inr q0"
  shows "length_cq (snd (run q0 ops)) =
           enqueued_count (fst (run q0 ops)) - dequeued_count (fst (run q0 ops)) \<and>
         0 \<le> length_cq (snd (run q0 ops)) \<and> length_cq (snd (run q0 ops)) \<le> max C 1"
  using run_facts(2,3,4) [OF assms, of ops] by simp

theorem length_counts_operations_witness:
  "constructor 3 = Inr (empty_example 3) \<and>
   snd (run (empty_example 3) [Enqueue 10, Enqueue 20, Enqueue 30, Dequeue, Enqueue 40]) =
     wrapped_example \<and>
   rearIndex wrapped_example < frontIndex wrapped_example \<and>
   length_cq wrapped_example = 4 - 1 \<and>
   0 \<le> length_cq wrapped_example \<and> length_cq wrapped_example \<le> 3"
proof -
  have r: "run (empty_example 3) [Enqueue 10, Enqueue 20, Enqueue 30, Dequeue, Enqueue 40] =
             ([Enqueued, Enqueued, Enqueued, Dequeued (Some 10), Enqueued], wrapped_example)"
    by (rule wrapped_example_reached)
  have "length_cq wrapped_example = 4 - 1 \<and>
        0 \<le> length_cq wrapped_example \<and> length_cq wrapped_example \<le> 3"
    using length_counts_operations [OF constructor_example,
      of "[Enqueue 10, Enqueue 20, Enqueue 30, Dequeue, Enqueue 40]"]
    unfolding r by simp
  moreover have "rearIndex wrapped_example < frontIndex wrapped_example"
    by (simp add: wrapped_example_def)
  ultimately show ?thesis unfolding r by (simp add: constructor_example)
qed

text \<open>
  Claim C6 (capacity 1). On a fresh queue of capacity 1, \<open>enqueue(x)\<close> succeeds and fills
  the queue, a second \<open>enqueue\<close> throws the queue-full error and changes nothing,
  \<open>dequeue()\<close> returns \<open>x\<close> and leaves the queue empty, and the next \<open>enqueue(z)\<close>
  succeeds with \<open>z\<close> at the front.
\<close>

theorem single_slot_queue:
  "\<exists>q0 q1 q2 q3.
     constructor 1 = Inr q0 \<and>
     enqueue x q0 = (Inr (), q1) \<and> length_cq q1 = size_cq q1 \<and>
     enqueue y q1 = (Inl QueueFull, q1) \<and>
     dequeue q1 = (Inr (Some x), q2) \<and> isEmpty q2 \<and> length_cq q2 = 0 \<and>
     enqueue z q2 = (Inr (), q3) \<and> fst (peek q3) = Slot (Some z)"
  by (simp add: constructor_def js_new_Array_def eval_simps peek_def)

text \<open>
  Claim C7 (peek). \<open>peek\<close> has no failing branch and returns the queue unchanged. On an empty
  queue it returns \<open>null\<close>; on any other queue \<open>dequeue\<close> succeeds and \<open>peek\<close> returns
  the value \<open>dequeue\<close> would return.
\<close>

theorem peek_is_pure:
  "snd (peek q) = q \<and>
   (isEmpty q \<longrightarrow> fst (peek q) = Null) \<and>
   (\<not> isEmpty q \<longrightarrow> (\<exists>v. fst (dequeue q) = Inr v \<and> fst (peek q) = Slot v))"
  by (simp add: peek_def isEmpty_def dequeue_def Let_def)

theorem peek_is_pure_witness:
  "isEmpty (empty_example 3) \<and> peek (empty_example 3) = (Null, empty_example 3) \<and>
   \<not> isEmpty wrapped_example \<and> fst (dequeue wrapped_example) = Inr (Some 20) \<and>
   peek wrapped_example = (Slot (Some 20), wrapped_example)"
proof -
  have a: "isEmpty (empty_example 3)" by (simp add: isEmpty_def empty_example_def)
  have b: "\<not> isEmpty wrapped_example" by (simp add: isEmpty_def wrapped_example_def)
  have c: "fst (dequeue wrapped_example) = Inr (Some 20)"
    by (simp add: dequeue_def wrapped_example_def)
  from a b c peek_is_pure [of "empty_example 3"] peek_is_pure [of wrapped_example]
  show ?thesis by (auto simp: prod_eq_iff)
qed

text \<open>
  Claim C8 (the two iterators). On a well-formed queue that is not mutated in between,
  draining the forward iterator and draining the reverse iterator give sequences that are
  reverses of each other, each with \<open>length()\<close> elements; the forward one reads the slots
  from \<open>frontIndex\<close> onwards, stepping circularly, oldest first.
\<close>

theorem iterators_are_mirror_images:
  assumes "queue_inv q"
  shows "forward_items (iterator q) = rev (reverse_items (reverseIterator q)) \<and>
         int (length (forward_items (iterator q))) = length_cq q \<and>
         int (length (reverse_items (reverseIterator q))) = length_cq q \<and>
         forward_items (iterator q) =
           map (\<lambda>k. queue q ((frontIndex q + int k) mod size_cq q)) [0..<nat (length_cq q)]"
  using forward_iterator_live [OF assms] reverse_iterator_live [OF assms] live_length [OF assms]
  by (simp add: live_elems_def)

theorem iterators_are_mirror_images_witness:
  "queue_inv wrapped_example \<and>
   forward_items (iterator wrapped_example) = [Some 20, Some 30, Some 40] \<and>
   reverse_items (reverseIterator wrapped_example) = [Some 40, Some 30, Some 20]"
proof -
  have a: "queue_inv wrapped_example" by (simp add: queue_inv_def wrapped_example_def)
  note inst = iterators_are_mirror_images [OF a]
  have n: "nat (length_cq wrapped_example) = Suc (Suc (Suc 0))"
    by (simp add: length_cq_def wrapped_example_def)
  have m: "forward_items (iterator wrapped_example) =
      map (\<lambda>k. queue wrapped_example ((frontIndex wrapped_example + int k) mod size_cq wrapped_example))
        [0..<nat (length_cq wrapped_example)]"
    using inst by blast
  have f: "forward_items (iterator wrapped_example) = [Some 20, Some 30, Some 40]"
    unfolding m n by (simp add: wrapped_example_def)
  have "forward_items (iterator wrapped_example) = rev (reverse_items (reverseIterator wrapped_example))"
    using inst by blast
  then have "rev (rev (reverse_items (reverseIterator wrapped_example))) =
             rev [Some 20, Some 30, Some 40]"
    using f by (simp only:)
  then have "reverse_items (reverseIterator wrapped_example) = [Some 40, Some 30, Some 20]"
    by simp
  with f a show ?thesis by simp
qed

text \<open>
  Claim C9 (state invariant). Its second half fails as stated on the queue of capacity 0:
  after \<open>enqueue(5)\<close> the queue is non-empty with both indices 0, outside \<open>0 .. C - 1\<close>,
  and \<open>(rearIndex - frontIndex + C) % C\<close> is \<open>NaN\<close>.
\<close>

theorem invariant_broken_at_capacity_zero:
  "constructor 0 = Inr (empty_example 0) \<and>
   run (empty_example 0) [Enqueue 5] = ([Enqueued], zero_example) \<and>
   \<not> isEmpty zero_example \<and>
   \<not> frontIndex zero_example \<le> 0 - 1 \<and>
   js_rem (rearIndex zero_example - frontIndex zero_example + 0) 0 = None"
  by (simp only: constructor_zero_example zero_example_reached simp_thms)
     (simp add: zero_example_def isEmpty_def js_rem_def)

text \<open>
  Claim C9, amended: after any sequence of calls, successful or failed, on a freshly
  constructed queue of capacity \<open>C\<close>, \<open>frontIndex\<close> is \<open>-1\<close> exactly when \<open>rearIndex\<close>
  is, exactly when the queue is empty (by \<open>isEmpty()\<close>, by \<open>length()\<close>, and by the count
  of successful calls); and when \<open>C\<close> is positive and the queue is non-empty, both indices
  lie in \<open>0 .. C - 1\<close> and \<open>(rearIndex - frontIndex + C) % C + 1\<close> is a number between 1
  and \<open>C\<close>, equal to \<open>length()\<close>.
\<close>

theorem invariant_after_operations:
  assumes "constructor C = Inr q0" "run q0 ops = (outs, q)"
  shows "size_cq q = C \<and>
         (frontIndex q = - 1 \<longleftrightarrow> rearIndex q = - 1) \<and>
         (frontIndex q = - 1 \<longleftrightarrow> isEmpty q) \<and>
         (isEmpty q \<longleftrightarrow> length_cq q = 0) \<and>
         (isEmpty q \<longleftrightarrow> enqueued_count outs = dequeued_count outs) \<and>
         (0 < C \<and> \<not> isEmpty q \<longrightarrow>
            0 \<le> frontIndex q \<and> frontIndex q \<le> C - 1 \<and>
            0 \<le> rearIndex q \<and> rearIndex q \<le> C - 1 \<and>
            (\<exists>c. js_rem (rearIndex q - frontIndex q + C) C = Some c \<and>
                 1 \<le> c + 1 \<and> c + 1 \<le> C \<and> c + 1 = length_cq q))"
proof -
  have q: "q = snd (run q0 ops)" and outs: "outs = fst (run q0 ops)"
    using assms(2) by simp_all
  note facts = run_facts [OF assms(1), of ops, folded q outs]
  have sz: "size_cq q = C" using facts(1) .
  have len: "length_cq q = enqueued_count outs - dequeued_count outs" using facts(2) .
  have zero: "length_cq q = 0 \<longleftrightarrow> frontIndex q = - 1" using facts(5) .
  have a: "frontIndex q = - 1 \<longleftrightarrow> rearIndex q = - 1" using facts(6) .
  have b: "isEmpty q \<longleftrightarrow> enqueued_count outs = dequeued_count outs"
    using zero len by (auto simp: isEmpty_def)
  have c: "0 \<le> frontIndex q \<and> frontIndex q \<le> C - 1 \<and>
            0 \<le> rearIndex q \<and> rearIndex q \<le> C - 1 \<and>
            (\<exists>c. js_rem (rearIndex q - frontIndex q + C) C = Some c \<and>
                 1 \<le> c + 1 \<and> c + 1 \<le> C \<and> c + 1 = length_cq q)"
    if pos: "0 < C" and "\<not> isEmpty q"
  proof -
    have inv: "queue_inv q"
      unfolding q using constructor_inv [OF assms(1) pos] by (intro run_inv) simp
    from that have ne: "frontIndex q \<noteq> - 1" by (simp add: isEmpty_def)
    then have "0 \<le> frontIndex q \<and> frontIndex q \<le> C - 1 \<and> 0 \<le> rearIndex q \<and> rearIndex q \<le> C - 1"
      using inv sz unfolding queue_inv_def by auto
    moreover have "js_rem (rearIndex q - frontIndex q + C) C = Some (length_cq q - 1)"
      using count_formula [OF inv ne] sz by simp
    moreover have "1 \<le> length_cq q" using facts(3) zero ne by linarith
    moreover have "length_cq q \<le> C" using length_bounds [OF inv] sz by simp
    ultimately show ?thesis by simp
  qed
  show ?thesis using sz a b c zero by (simp add: isEmpty_def)
qed

theorem invariant_after_operations_witness:
  "constructor 3 = Inr (empty_example 3) \<and> (0::int) < 3 \<and>
   run (empty_example 3) [Enqueue 10, Enqueue 20, Enqueue 30, Dequeue, Enqueue 40] =
     ([Enqueued, Enqueued, Enqueued, Dequeued (Some 10), Enqueued], wrapped_example) \<and>
   \<not> isEmpty wrapped_example \<and>
   js_rem (rearIndex wrapped_example - frontIndex wrapped_example + 3) 3 = Some 2 \<and>
   length_cq wrapped_example = 3"
proof -
  have pos: "(0::int) < 3" by simp
  have ne: "\<not> isEmpty wrapped_example" by (simp add: isEmpty_def wrapped_example_def)
  from invariant_after_operations [OF constructor_example wrapped_example_reached] ne pos
  have "\<exists>c. js_rem (rearIndex wrapped_example - frontIndex wrapped_example + 3) 3 = Some c \<and>
             c + 1 = length_cq wrapped_example"
    by blast
  moreover have "js_rem (rearIndex wrapped_example - frontIndex wrapped_example + 3) 3 = Some 2"
    by (simp add: js_rem_def wrapped_example_def)
  ultimately have "length_cq wrapped_example = 3" by auto
  then show ?thesis
    using ne constructor_example wrapped_example_reached
      \<open>js_rem (rearIndex wrapped_example - frontIndex wrapped_example + 3) 3 = Some 2\<close>
    by (simp only: pos simp_thms)
qed

text \<open>
  Claim C10 (dequeue never writes the array). A successful \<open>dequeue\<close> changes
  \<open>frontIndex\<close> and, only when front and rear coincide, \<open>rearIndex\<close>; the array is the
  same afterwards, so the slot of the removed element still holds the returned value and every
  other slot is unchanged.
\<close>

theorem dequeue_never_writes_storage:
  assumes "dequeue q = (Inr v, q')"
  shows "queue q' = queue q \<and> size_cq q' = size_cq q \<and>
         queue q' (frontIndex q) = v \<and>
         (\<exists>f r. q' = q\<lparr>frontIndex := f, rearIndex := r\<rparr> \<and>
                (frontIndex q \<noteq> rearIndex q \<longrightarrow> r = rearIndex q))"
proof -
  have ne: "frontIndex q \<noteq> - 1" using assms by (auto simp: dequeue_def)
  show ?thesis
  proof (cases "frontIndex q = rearIndex q")
    case True
    then have "q' = q\<lparr>frontIndex := - 1, rearIndex := - 1\<rparr>" "v = queue q (frontIndex q)"
      using assms ne by (simp_all add: dequeue_def Let_def)
    then show ?thesis using True by auto
  next
    case False
    then have "q' = q\<lparr>frontIndex := frontIndex q', rearIndex := rearIndex q\<rparr>"
      "v = queue q (frontIndex q)"
      using assms ne by (auto simp: dequeue_def Let_def split: if_splits)
    then show ?thesis
      by (metis CircularQueue.select_convs(1,4) CircularQueue.surjective CircularQueue.update_convs(2,3))
  qed
qed

theorem dequeue_never_writes_storage_witness:
  "dequeue wrapped_example = (Inr (Some 20), wrapped_example\<lparr>frontIndex := 2\<rparr>) \<and>
   queue (wrapped_example\<lparr>frontIndex := 2\<rparr>) = queue wrapped_example \<and>
   queue (wrapped_example\<lparr>frontIndex := 2\<rparr>) (frontIndex wrapped_example) = Some 20"
proof -
  have d: "dequeue wrapped_example = (Inr (Some 20), wrapped_example\<lparr>frontIndex := 2\<rparr>)"
    by (simp add: dequeue_def wrapped_example_def)
  from dequeue_never_writes_storage [OF d] d show ?thesis by simp
qed

end
